theory Spec2Isabelle
  imports Complex_Main "HOL-Library.Word" "HOL-Library.Multiset"
begin

section \<open>Pixel sorting: masks, spans, hue and recomposition\<close>

text \<open>
  A shallow embedding of the pixel-sorting pipeline of \<^verbatim>\<open>pixelsort\<close> (Go):
  \<^verbatim>\<open>generateLuminanceMask\<close>, \<^verbatim>\<open>generateSortSpans\<close>, \<^verbatim>\<open>getHue\<close> and
  \<^verbatim>\<open>sortSpans\<close>. The definitions follow the current program text; the older
  \<^verbatim>\<open>generateSortSpans\<close> kept in \<^verbatim>\<open>pixelsort.go\<close> is embedded separately under the
  name \<open>generateSortSpans_v1\<close>.

  Modelling decisions, fixed here once:
  \<^item> A pixel is a \<^verbatim>\<open>color.RGBA\<close> value: four 8-bit channels. A pixel grid is an
    \<^verbatim>\<open>*image.RGBA\<close> whose bounds start at the origin (what the decoders return and
    what the program itself allocates): a width, a height and the stored pixels.
    \<^verbatim>\<open>At\<close> outside the bounds yields the zero colour and \<^verbatim>\<open>Set\<close> outside the bounds
    does nothing, as in Go's \<^verbatim>\<open>image\<close> package.
  \<^item> Go's \<^verbatim>\<open>int\<close> is modelled by \<open>int\<close>: coordinates and lengths are bounded by the
    image size, far from the 64-bit range.
  \<^item> \<^verbatim>\<open>float64\<close> arithmetic is modelled by exact real arithmetic. The channel
    values are integers below \<open>2\<^sup>1\<^sup>6\<close> and are exact in \<^verbatim>\<open>float64\<close>; the rounding
    error of the divisions, products and the square root is not modelled.
  \<^item> \<^verbatim>\<open>sort.Slice\<close> belongs to Go's library. \<open>sortSpans\<close> takes the sorting routine
    as a parameter, and the theorems about it assume the documented contract
    \<open>sort_contract\<close>. \<open>insertionSort\<close>, the routine \<^verbatim>\<open>sort.Slice\<close> runs on slices of
    at most 12 elements, is shown to meet the contract and is used wherever a
    concrete input is evaluated.
\<close>

subsection \<open>Colours\<close>

record RGBA =
  R :: "8 word"
  G :: "8 word"
  B :: "8 word"
  A :: "8 word"

definition RGBAWhite :: RGBA where
  "RGBAWhite = \<lparr>R = 255, G = 255, B = 255, A = 255\<rparr>"

definition RGBABlack :: RGBA where
  "RGBABlack = \<lparr>R = 0, G = 0, B = 0, A = 255\<rparr>"

definition RGBAMagenta :: RGBA where
  "RGBAMagenta = \<lparr>R = 255, G = 0, B = 255, A = 255\<rparr>"

text \<open>The zero value \<^verbatim>\<open>color.RGBA{}\<close>.\<close>

definition RGBAZero :: RGBA where
  "RGBAZero = \<lparr>R = 0, G = 0, B = 0, A = 0\<rparr>"

text \<open>
  \<^verbatim>\<open>func (c RGBA) RGBA() (r, g, b, a uint32)\<close>: every channel is widened to 16 bits by
  \<^verbatim>\<open>r = uint32(c.R); r |= r << 8\<close>.
\<close>

definition channel16 :: "8 word \<Rightarrow> 32 word" where
  "channel16 v = or (ucast v) (push_bit 8 (ucast v))"

definition color_RGBA :: "RGBA \<Rightarrow> 32 word \<times> 32 word \<times> 32 word \<times> 32 word" where
  "color_RGBA c = (channel16 (R c), channel16 (G c), channel16 (B c), channel16 (A c))"

text \<open>\<^verbatim>\<open>float64(r)\<close> of a \<^verbatim>\<open>uint32\<close>.\<close>

definition float64 :: "32 word \<Rightarrow> real" where
  "float64 w = real (unat w)"

subsection \<open>Pixel grids\<close>

record Image =
  Dx :: int
  Dy :: int
  Pix :: "int \<Rightarrow> int \<Rightarrow> RGBA"

definition inBounds :: "Image \<Rightarrow> int \<Rightarrow> int \<Rightarrow> bool" where
  "inBounds m x y = (0 \<le> x \<and> x < Dx m \<and> 0 \<le> y \<and> y < Dy m)"

definition At :: "Image \<Rightarrow> int \<Rightarrow> int \<Rightarrow> RGBA" where
  "At m x y = (if inBounds m x y then Pix m x y else RGBAZero)"

definition Set_px :: "Image \<Rightarrow> int \<Rightarrow> int \<Rightarrow> RGBA \<Rightarrow> Image" where
  "Set_px m x y c =
     (if inBounds m x y
      then m\<lparr>Pix := (\<lambda>x' y'. if x' = x \<and> y' = y then c else Pix m x' y')\<rparr>
      else m)"

definition NewRGBA :: "int \<Rightarrow> int \<Rightarrow> Image" where
  "NewRGBA w h = \<lparr>Dx = w, Dy = h, Pix = (\<lambda>x y. RGBAZero)\<rparr>"

text \<open>
  \<^verbatim>\<open>out := image.NewRGBA(image.Rect(0, 0, b.Dx(), b.Dy()))\<close> followed by
  \<^verbatim>\<open>draw.Draw(out, out.Bounds(), src, src.Bounds().Min, draw.Src)\<close>: a fresh grid of
  the same size holding the source's pixels.
\<close>

definition draw_Src :: "Image \<Rightarrow> Image" where
  "draw_Src src = (NewRGBA (Dx src) (Dy src))\<lparr>Pix := (\<lambda>x y. At src x y)\<rparr>"

text \<open>The index sequence of \<^verbatim>\<open>for i := range n\<close> (empty when \<open>n \<le> 0\<close>).\<close>

definition go_range :: "int \<Rightarrow> int list" where
  "go_range n = map int [0..<nat n]"

subsection \<open>The luminance mask\<close>

datatype error = LowAboveHigh | NegativeThreshold

definition perceivedR :: real where "perceivedR = 0.299"
definition perceivedG :: real where "perceivedG = 0.587"
definition perceivedB :: real where "perceivedB = 0.114"

definition perceivedLuminance :: "RGBA \<Rightarrow> real" where
  "perceivedLuminance c =
     (case color_RGBA c of (r, g, b, a) \<Rightarrow>
        sqrt (perceivedR * (float64 r)\<^sup>2 + perceivedG * (float64 g)\<^sup>2
              + perceivedB * (float64 b)\<^sup>2))"

text \<open>The body of the inner loop: one pixel of the mask is written.\<close>

definition maskPixel :: "Image \<Rightarrow> int \<Rightarrow> int \<Rightarrow> bool \<Rightarrow> int \<Rightarrow> Image \<Rightarrow> int \<Rightarrow> Image" where
  "maskPixel original lo hi invert y msk x =
     (let L = perceivedLuminance (At original x y)
      in if L < real_of_int lo \<or> L > real_of_int hi
         then (if \<not> invert then Set_px msk x y RGBABlack else Set_px msk x y RGBAWhite)
         else (if \<not> invert then Set_px msk x y RGBAWhite else Set_px msk x y RGBABlack))"

definition maskRow :: "Image \<Rightarrow> int \<Rightarrow> int \<Rightarrow> bool \<Rightarrow> Image \<Rightarrow> int \<Rightarrow> Image" where
  "maskRow original lo hi invert msk y =
     foldl (maskPixel original lo hi invert y) msk (go_range (Dx original))"

definition generateLuminanceMask :: "Image \<Rightarrow> int \<Rightarrow> int \<Rightarrow> bool \<Rightarrow> error + Image" where
  "generateLuminanceMask original lo hi invert =
     (if lo > hi then Inl LowAboveHigh
      else if lo < 0 \<or> hi < 0 then Inl NegativeThreshold
      else Inr (foldl (maskRow original lo hi invert)
                  (NewRGBA (Dx original) (Dy original)) (go_range (Dy original))))"

subsection \<open>Span detection\<close>

record Span =
  color :: RGBA
  row :: int
  idx :: int
  len :: int

text \<open>
  The state of the scan of one line: \<^verbatim>\<open>keep\<close>, the current \<^verbatim>\<open>span\<close> and the
  \<^verbatim>\<open>spans\<close> emitted so far. \<open>scanPixel\<close> is the body of the inner loop.
\<close>

type_synonym scan_state = "bool \<times> Span \<times> Span list"

definition scanPixel :: "Image \<Rightarrow> int \<Rightarrow> int \<Rightarrow> scan_state \<Rightarrow> int \<Rightarrow> scan_state" where
  "scanPixel msk minSpanLen y st x =
     (case st of (keep, sp, spans) \<Rightarrow>
        (case (if At msk x y = color sp
               then (keep, sp\<lparr>len := len sp + 1\<rparr>, spans)
               else (\<not> keep, \<lparr>color = At msk x y, row = y, idx = x, len = 1\<rparr>,
                     if keep \<and> len sp \<ge> minSpanLen then spans @ [sp] else spans))
         of (keep', sp', spans') \<Rightarrow>
           if x = Dx msk - 1 \<and> keep' then (keep', sp', spans' @ [sp'])
           else (keep', sp', spans')))"

definition scanRow :: "Image \<Rightarrow> int \<Rightarrow> Span list \<Rightarrow> int \<Rightarrow> Span list" where
  "scanRow msk minSpanLen spans y =
     snd (snd (foldl (scanPixel msk minSpanLen y)
                 (At msk 0 y = RGBAWhite, \<lparr>color = At msk 0 y, row = y, idx = 0, len = 0\<rparr>, spans)
                 (go_range (Dx msk))))"

definition generateSortSpans :: "Image \<Rightarrow> int \<Rightarrow> Span list" where
  "generateSortSpans msk minSpanLen =
     foldl (scanRow msk minSpanLen) [] (go_range (Dy msk))"

text \<open>
  The older detector of \<^verbatim>\<open>pixelsort.go\<close>: one run state for the whole image, the
  first span starting with length 1, and no flush at the end of a line.
\<close>

definition scanPixel_v1 :: "Image \<Rightarrow> int \<Rightarrow> int \<Rightarrow> scan_state \<Rightarrow> int \<Rightarrow> scan_state" where
  "scanPixel_v1 msk minSpanLen y st x =
     (case st of (keep, sp, spans) \<Rightarrow>
        if At msk x y = color sp
        then (keep, sp\<lparr>len := len sp + 1\<rparr>, spans)
        else (\<not> keep, \<lparr>color = At msk x y, row = y, idx = x, len = 1\<rparr>,
              if keep \<and> len sp \<ge> minSpanLen then spans @ [sp] else spans))"

definition generateSortSpans_v1 :: "Image \<Rightarrow> int \<Rightarrow> Span list" where
  "generateSortSpans_v1 msk minSpanLen =
     snd (snd (foldl (\<lambda>st y. foldl (scanPixel_v1 msk minSpanLen y) st (go_range (Dx msk)))
                 (At msk 0 0 = RGBAWhite, \<lparr>color = At msk 0 0, row = 0, idx = 0, len = 1\<rparr>, [])
                 (go_range (Dy msk))))"

subsection \<open>Hue\<close>

text \<open>\<^verbatim>\<open>math.Round\<close>: to the nearest integer, halves away from zero.\<close>

definition go_Round :: "real \<Rightarrow> real" where
  "go_Round x = (if 0 \<le> x then of_int \<lfloor>x + 1 / 2\<rfloor> else - of_int \<lfloor>- x + 1 / 2\<rfloor>)"

definition getHue :: "RGBA \<Rightarrow> real" where
  "getHue c =
     (case color_RGBA c of (r, g, b, a) \<Rightarrow>
        let red = float64 r; green = float64 g; blue = float64 b;
            mn = min (min red green) blue;
            mx = max (max red green) blue
        in if mn = mx then 0
           else
             let hue = (if mx = red then (green - blue) / (mx - mn)
                        else if mx = green then 2 + (blue - red) / (mx - mn)
                        else 4 + (red - green) / (mx - mn));
                 hue = hue * 60;
                 hue = (if hue < 0 then hue + 360 else hue)
             in go_Round hue)"

subsection \<open>Sorting the spans and writing them back\<close>

text \<open>The comparison handed to \<^verbatim>\<open>sort.Slice\<close>, on the elements at the two indices.\<close>

definition hueLess :: "bool \<Rightarrow> RGBA \<Rightarrow> RGBA \<Rightarrow> bool" where
  "hueLess reverse ci cj =
     (let a = getHue ci; b = getHue cj in if \<not> reverse then a > b else a < b)"

text \<open>The first inner loop of \<^verbatim>\<open>sortSpans\<close>: the source pixels of a span, in scan order.\<close>

definition gatherSpan :: "Image \<Rightarrow> Span \<Rightarrow> RGBA list" where
  "gatherSpan src sp = map (\<lambda>i. At src (idx sp + i) (row sp)) (go_range (len sp))"

text \<open>The body of the second inner loop: pixel \<open>i\<close> of the sorted slice is written back.\<close>

definition writePixel :: "Span \<Rightarrow> RGBA list \<Rightarrow> Image \<Rightarrow> int \<Rightarrow> Image" where
  "writePixel sp c out i =
     (let out1 = Set_px out (idx sp + i) (row sp) (c ! nat i)
      in case color_RGBA (c ! nat i) of (r, g, b, alpha) \<Rightarrow>
           if alpha = 0 then Set_px out1 (idx sp + i) (row sp) RGBAMagenta else out1)"

type_synonym sorter = "(RGBA \<Rightarrow> RGBA \<Rightarrow> bool) \<Rightarrow> RGBA list \<Rightarrow> RGBA list"

definition sortSpan :: "sorter \<Rightarrow> Image \<Rightarrow> bool \<Rightarrow> Image \<Rightarrow> Span \<Rightarrow> Image" where
  "sortSpan sort_Slice src reverse out sp =
     (if len sp > 1
      then let c = sort_Slice (hueLess reverse) (gatherSpan src sp)
           in foldl (writePixel sp c) out (go_range (len sp))
      else out)"

definition sortSpans :: "sorter \<Rightarrow> Image \<Rightarrow> Span list \<Rightarrow> bool \<Rightarrow> Image" where
  "sortSpans sort_Slice src spans reverse =
     foldl (sortSpan sort_Slice src reverse) (draw_Src src) spans"

text \<open>
  The contract of \<^verbatim>\<open>sort.Slice\<close>: when the comparison is a strict weak ordering, the slice is
  permuted in place so that no element is less than an earlier one. Nothing is promised
  about the order of elements that compare equal.
\<close>

definition strict_weak_order :: "('a \<Rightarrow> 'a \<Rightarrow> bool) \<Rightarrow> bool" where
  "strict_weak_order lt =
     ((\<forall>a. \<not> lt a a) \<and> (\<forall>a b c. lt a b \<and> lt b c \<longrightarrow> lt a c)
      \<and> (\<forall>a b c. lt a c \<longrightarrow> lt a b \<or> lt b c))"

definition sort_contract :: "(('a \<Rightarrow> 'a \<Rightarrow> bool) \<Rightarrow> 'a list \<Rightarrow> 'a list) \<Rightarrow> bool" where
  "sort_contract sort_Slice =
     (\<forall>lt xs. strict_weak_order lt \<longrightarrow>
        mset (sort_Slice lt xs) = mset xs
        \<and> sorted_wrt (\<lambda>a b. \<not> lt b a) (sort_Slice lt xs))"

text \<open>
  Insertion sort as \<^verbatim>\<open>sort.Slice\<close> runs it on short slices: element \<open>i\<close> moves left
  while it is less than its left neighbour. \<open>insertLeft\<close> works on the reversed prefix,
  whose head is that neighbour.
\<close>

fun insertLeft :: "('a \<Rightarrow> 'a \<Rightarrow> bool) \<Rightarrow> 'a \<Rightarrow> 'a list \<Rightarrow> 'a list" where
  "insertLeft lt x [] = [x]"
| "insertLeft lt x (y # ys) = (if lt x y then y # insertLeft lt x ys else x # y # ys)"

definition insertionSort :: "('a \<Rightarrow> 'a \<Rightarrow> bool) \<Rightarrow> 'a list \<Rightarrow> 'a list" where
  "insertionSort lt xs = rev (foldl (\<lambda>acc x. insertLeft lt x acc) [] xs)"

subsection \<open>Predicates used in the statements\<close>

text \<open>A mask in the sense of the data model: every pixel is white or black.\<close>

definition isMask :: "Image \<Rightarrow> bool" where
  "isMask msk =
     list_all (\<lambda>y. list_all (\<lambda>x. At msk x y = RGBAWhite \<or> At msk x y = RGBABlack)
                 (go_range (Dx msk))) (go_range (Dy msk))"

text \<open>The pixel positions a span covers.\<close>

definition covers :: "Span \<Rightarrow> int \<Rightarrow> int \<Rightarrow> bool" where
  "covers sp x y = (y = row sp \<and> idx sp \<le> x \<and> x < idx sp + len sp)"

text \<open>A span lies within one scan line of a grid of the given size.\<close>

definition spanInLine :: "int \<Rightarrow> int \<Rightarrow> Span \<Rightarrow> bool" where
  "spanInLine w h sp =
     (0 \<le> row sp \<and> row sp < h \<and> 0 \<le> idx sp \<and> 1 \<le> len sp \<and> idx sp + len sp \<le> w)"

text \<open>Scan order: an earlier line, or the same line and ending before the other starts.\<close>

definition before :: "Span \<Rightarrow> Span \<Rightarrow> bool" where
  "before s t = (row s < row t \<or> (row s = row t \<and> idx s + len s \<le> idx t))"

definition spansOk :: "int \<Rightarrow> int \<Rightarrow> Span list \<Rightarrow> bool" where
  "spansOk w h spans = (list_all (spanInLine w h) spans \<and> sorted_wrt before spans)"

text \<open>The state of the scan of line \<open>y\<close> after its first \<open>k\<close> pixels.\<close>

definition scanState :: "Image \<Rightarrow> int \<Rightarrow> Span list \<Rightarrow> int \<Rightarrow> nat \<Rightarrow> scan_state" where
  "scanState msk minSpanLen spans y k =
     foldl (scanPixel msk minSpanLen y)
       (At msk 0 y = RGBAWhite, \<lparr>color = At msk 0 y, row = y, idx = 0, len = 0\<rparr>, spans)
       (go_range (int k))"

text \<open>The colour \<^verbatim>\<open>sortSpans\<close> leaves for a sorted pixel.\<close>

definition written :: "RGBA \<Rightarrow> RGBA" where
  "written c = (if A c = 0 then RGBAMagenta else c)"

text \<open>Grids for the evaluations below, given by their rows.\<close>

definition ofRows :: "RGBA list list \<Rightarrow> Image" where
  "ofRows rows =
     \<lparr>Dx = (case rows of [] \<Rightarrow> 0 | r # rs \<Rightarrow> int (length r)), Dy = int (length rows),
      Pix = (\<lambda>x y. rows ! nat y ! nat x)\<rparr>"

section \<open>Properties\<close>

subsection \<open>Channel values\<close>

lemma nat_or_shift: 
  assumes "n < (256::nat)" shows "or n (push_bit 8 n) = 257 * n"
proof -
  have nb: "\<not> bit n k" if "8 \<le> k" for k
  proof -
    have "(2::nat) ^ 8 \<le> 2 ^ k" using that by (intro power_increasing) simp_all
    then have "n < 2 ^ k" using assms by simp
    then show ?thesis by (simp add: bit_iff_odd)
  qed
  have "n + push_bit 8 n = or n (push_bit 8 n)"
    by (rule disjunctive_add) (auto simp: bit_push_bit_iff dest: nb)
  then show ?thesis by (simp add: push_bit_eq_mult)
qed

lemma unat_channel16: "unat (channel16 v) = 257 * unat v"
proof -
  have lt: "unat v < 256" using unsigned_less[of v, where 'a=nat] by simp
  have a: "unat (ucast v :: 32 word) = unat v"
    by (simp add: unsigned_ucast_eq take_bit_nat_eq_self lt less_trans[OF lt])
  have "push_bit 8 (unat v) < 2 ^ 32"
    using lt by (simp add: push_bit_eq_mult)
  then have b: "unat (push_bit 8 (ucast v :: 32 word)) = push_bit 8 (unat v)"
    unfolding unsigned_push_bit_eq a by (simp add: take_bit_nat_eq_self)
  show ?thesis
    unfolding channel16_def unsigned_or_eq a b by (rule nat_or_shift[OF lt])
qed



lemma go_Round_bounds:
  assumes "0 \<le> x" "x \<le> 360"
  shows "0 \<le> go_Round x \<and> go_Round x \<le> 360 \<and> go_Round x \<in> \<int>"
proof -
  have "\<lfloor>x + 1 / 2\<rfloor> \<le> 360" using assms by (simp add: floor_le_iff)
  moreover have "0 \<le> \<lfloor>x + 1 / 2\<rfloor>" using assms by simp
  ultimately show ?thesis using assms by (simp add: go_Round_def)
qed

lemma hue_range:
  fixes red green blue :: real
  assumes mn: "mn = min (min red green) blue" and mx: "mx = max (max red green) blue"
      and ne: "mn \<noteq> mx"
      and h0: "h0 = (if mx = red then (green - blue) / (mx - mn)
                     else if mx = green then 2 + (blue - red) / (mx - mn)
                     else 4 + (red - green) / (mx - mn))"
      and h1: "h1 = h0 * 60"
      and h2: "h2 = (if h1 < 0 then h1 + 360 else h1)"
  shows "0 \<le> h2 \<and> h2 \<le> 360"
proof -
  have d: "0 < mx - mn" using mn mx ne by (auto simp: min_def max_def split: if_splits)
  have q: "- 1 \<le> (a - b) / (mx - mn) \<and> (a - b) / (mx - mn) \<le> 1"
    if "mn \<le> a" "a \<le> mx" "mn \<le> b" "b \<le> mx" for a b
    using d that by (simp add: pos_le_divide_eq pos_divide_le_eq)
  have r: "mn \<le> red" "red \<le> mx" "mn \<le> green" "green \<le> mx" "mn \<le> blue" "blue \<le> mx"
    using mn mx by (auto simp: min_def max_def)
  have "- 1 \<le> h0 \<and> h0 \<le> 5"
  proof (cases "mx = red")
    case True
    then show ?thesis using q[OF r(3,4,5,6)] by (simp add: h0)
  next
    case nr: False
    show ?thesis
    proof (cases "mx = green")
      case True
      then show ?thesis using nr q[OF r(5,6,1,2)] by (simp add: h0)
    next
      case False
      then show ?thesis using nr q[OF r(1,2,3,4)] by (simp add: h0)
    qed
  qed
  then show ?thesis unfolding h2 h1 by (simp split: if_splits)
qed

subsection \<open>Hue\<close>

text \<open>
  Claim C3, as amended. For every colour \<open>getHue\<close> returns a whole number of degrees
  between 0 and 360, both included, and an achromatic colour (\<open>R = G = B\<close>) has hue 0.
  The upper bound 360 is reached: a hue in \<open>[359.5, 360)\<close> is rounded up to 360, so
  the half-open range \<open>[0, 360)\<close> of the claim does not hold.
\<close>

theorem getHue_range:
  "0 \<le> getHue c \<and> getHue c \<le> 360 \<and> getHue c \<in> \<int>
   \<and> (R c = G c \<and> G c = B c \<longrightarrow> getHue c = 0)"
proof -
  let ?red = "float64 (channel16 (R c))"
  let ?green = "float64 (channel16 (G c))"
  let ?blue = "float64 (channel16 (B c))"
  let ?mn = "min (min ?red ?green) ?blue"
  let ?mx = "max (max ?red ?green) ?blue"
  let ?h0 = "(if ?mx = ?red then (?green - ?blue) / (?mx - ?mn)
                     else if ?mx = ?green then 2 + (?blue - ?red) / (?mx - ?mn)
                     else 4 + (?red - ?green) / (?mx - ?mn))"
  let ?h2 = "(if ?h0 * 60 < 0 then ?h0 * 60 + 360 else ?h0 * 60)"
  have eq: "getHue c = (if ?mn = ?mx then 0 else go_Round ?h2)"
    by (simp add: getHue_def color_RGBA_def Let_def)
  have achrom: "getHue c = 0" if "R c = G c" "G c = B c"
    using that by (simp add: eq)
  have rng: "0 \<le> getHue c \<and> getHue c \<le> 360 \<and> getHue c \<in> \<int>"
  proof (cases "?mn = ?mx")
    case True
    then show ?thesis by (simp add: eq)
  next
    case False
    have "0 \<le> ?h2 \<and> ?h2 \<le> 360"
      by (rule hue_range[OF refl refl False refl refl refl])
    then show ?thesis using False go_Round_bounds[of ?h2] by (simp add: eq)
  qed
  show ?thesis using rng achrom by blast
qed

theorem getHue_range_witness:
  "getHue \<lparr>R = 128, G = 128, B = 128, A = 255\<rparr> = 0
   \<and> 0 \<le> getHue \<lparr>R = 20, G = 200, B = 31, A = 255\<rparr>
   \<and> getHue \<lparr>R = 20, G = 200, B = 31, A = 255\<rparr> \<le> 360"
  using getHue_range[of "\<lparr>R = 128, G = 128, B = 128, A = 255\<rparr>"]
    getHue_range[of "\<lparr>R = 20, G = 200, B = 31, A = 255\<rparr>"]
  by simp

text \<open>
  Counterexample to C3 as stated: the opaque colour \<open>(255, 0, 1)\<close> has hue
  \<open>60 * (0 - 257) / 65535 + 360 = 359.76...\<close>, which \<^verbatim>\<open>math.Round\<close> takes to 360.
\<close>

theorem getHue_reaches_360:
  "getHue \<lparr>R = 255, G = 0, B = 1, A = 255\<rparr> = 360
   \<and> \<not> getHue \<lparr>R = 255, G = 0, B = 1, A = 255\<rparr> < 360"
  by (simp add: getHue_def color_RGBA_def float64_def go_Round_def channel16_def Let_def)

subsection \<open>Threshold errors\<close>

text \<open>
  Claim C9. \<open>generateLuminanceMask\<close> returns an error, and no mask, exactly when
  \<open>lo > hi\<close> or \<open>lo < 0\<close> or \<open>hi < 0\<close>; it returns a mask exactly for the valid
  pairs \<open>0 \<le> lo \<le> hi\<close>; it fails on \<open>(100, 50)\<close> and on \<open>(-1, 10)\<close>.
\<close>

theorem generateLuminanceMask_error_iff:
  "((\<exists>e. generateLuminanceMask original lo hi invert = Inl e) \<longleftrightarrow> (lo > hi \<or> lo < 0 \<or> hi < 0))
   \<and> ((\<exists>m. generateLuminanceMask original lo hi invert = Inr m) \<longleftrightarrow> (0 \<le> lo \<and> lo \<le> hi))
   \<and> generateLuminanceMask original 100 50 invert = Inl LowAboveHigh
   \<and> generateLuminanceMask original (- 1) 10 invert = Inl NegativeThreshold"
  by (auto simp: generateLuminanceMask_def)

theorem generateLuminanceMask_error_iff_witness:
  "(\<exists>e. generateLuminanceMask (ofRows [[RGBABlack]]) 7 3 False = Inl e)
   \<and> (\<exists>m. generateLuminanceMask (ofRows [[RGBABlack]]) 3 7 False = Inr m)"
  using generateLuminanceMask_error_iff[of "ofRows [[RGBABlack]]" 7 3 False]
    generateLuminanceMask_error_iff[of "ofRows [[RGBABlack]]" 3 7 False]
  by simp

subsection \<open>Index ranges\<close>

lemma go_range_nonpos: "n \<le> 0 \<Longrightarrow> go_range n = []"
  by (simp add: go_range_def)

lemma go_range_Suc: "go_range (int (Suc k)) = go_range (int k) @ [int k]"
  unfolding go_range_def nat_int by simp

lemma go_range_nat: "go_range (int (nat n)) = go_range n"
  unfolding go_range_def nat_int ..

lemma set_go_range: "set (go_range n) = {0..<n}"
proof -
  have "int ` {0..<nat n} = {0..<n}"
  proof (intro set_eqI iffI)
    fix x assume "x \<in> {0..<n}"
    then have "x = int (nat x)" "nat x \<in> {0..<nat n}" by auto
    then show "x \<in> int ` {0..<nat n}" by blast
  qed auto
  then show ?thesis by (simp add: go_range_def)
qed

subsection \<open>The scan of one line\<close>

lemma scanPixel_same:
  "At msk x y = color sp \<Longrightarrow>
   scanPixel msk m y (keep, sp, spans) x =
     (keep, sp\<lparr>len := len sp + 1\<rparr>,
      if x = Dx msk - 1 \<and> keep then spans @ [sp\<lparr>len := len sp + 1\<rparr>] else spans)"
  by (simp add: scanPixel_def)

lemma scanPixel_change:
  "At msk x y \<noteq> color sp \<Longrightarrow>
   scanPixel msk m y (keep, sp, spans) x =
     (\<not> keep, \<lparr>color = At msk x y, row = y, idx = x, len = 1\<rparr>,
      (if keep \<and> m \<le> len sp then spans @ [sp] else spans)
      @ (if x = Dx msk - 1 \<and> \<not> keep then [\<lparr>color = At msk x y, row = y, idx = x, len = 1\<rparr>] else []))"
  by (simp add: scanPixel_def)

lemma scanState_0:
  "scanState msk m spans y 0 =
     (At msk 0 y = RGBAWhite, \<lparr>color = At msk 0 y, row = y, idx = 0, len = 0\<rparr>, spans)"
  by (simp add: scanState_def go_range_def)

lemma scanState_Suc:
  "scanState msk m spans y (Suc k) = scanPixel msk m y (scanState msk m spans y k) (int k)"
  unfolding scanState_def go_range_Suc by simp

lemma scanRow_scanState:
  "scanRow msk m spans y = snd (snd (scanState msk m spans y (nat (Dx msk))))"
  unfolding scanRow_def scanState_def go_range_nat ..

text \<open>The shape of the current span after \<open>k\<close> pixels of the line.\<close>

lemma scanState_shape:
  assumes "scanState msk m spans y k = (keep, sp, out)"
  shows "row sp = y \<and> 0 \<le> idx sp \<and> idx sp + len sp = int k
         \<and> (k = 0 \<longrightarrow> color sp = At msk 0 y \<and> len sp = 0) \<and> (0 < k \<longrightarrow> 1 \<le> len sp)"
  using assms
proof (induction k arbitrary: keep sp out)
  case 0
  then show ?case by (auto simp: scanState_0)
next
  case (Suc k)
  obtain keep0 sp0 out0 where st: "scanState msk m spans y k = (keep0, sp0, out0)"
    by (cases "scanState msk m spans y k") auto
  note ih = Suc.IH[OF st]
  show ?case
  proof (cases "At msk (int k) y = color sp0")
    case True
    with Suc.prems st ih show ?thesis
      by (auto simp: scanState_Suc scanPixel_same)
  next
    case False
    with Suc.prems st ih show ?thesis
      by (auto simp: scanState_Suc scanPixel_change)
  qed
qed

text \<open>The pixels of the current run, and the colour change before it.\<close>

lemma scanState_run:
  assumes "scanState msk m spans y k = (keep, sp, out)" "0 < k"
  shows "(\<forall>x. idx sp \<le> x \<and> x < int k \<longrightarrow> At msk x y = color sp)
         \<and> (0 < idx sp \<longrightarrow> At msk (idx sp - 1) y \<noteq> color sp)"
  using assms
proof (induction k arbitrary: keep sp out)
  case 0
  then show ?case by simp
next
  case (Suc k)
  obtain keep0 sp0 out0 where st: "scanState msk m spans y k = (keep0, sp0, out0)"
    by (cases "scanState msk m spans y k") auto
  note sh = scanState_shape[OF st]
  show ?case
  proof (cases "At msk (int k) y = color sp0")
    case True
    then have sp: "sp = sp0\<lparr>len := len sp0 + 1\<rparr>"
      using Suc.prems(1) st by (simp add: scanState_Suc scanPixel_same)
    have ih: "(\<forall>x. idx sp0 \<le> x \<and> x < int k \<longrightarrow> At msk x y = color sp0)
         \<and> (0 < idx sp0 \<longrightarrow> At msk (idx sp0 - 1) y \<noteq> color sp0)"
    proof (cases "k = 0")
      case True
      with sh show ?thesis by auto
    next
      case False
      then show ?thesis using Suc.IH[OF st] by simp
    qed
    have run: "At msk x y = color sp0" if "idx sp0 \<le> x" "x < int (Suc k)" for x
    proof (cases "x = int k")
      case True
      then show ?thesis using \<open>At msk (int k) y = color sp0\<close> by simp
    next
      case False
      with that have "x < int k" by simp
      with ih that show ?thesis by blast
    qed
    have e: "color sp = color sp0" "idx sp = idx sp0" using sp by simp_all
    show ?thesis unfolding e using run ih by blast
  next
    case False
    then have sp: "sp = \<lparr>color = At msk (int k) y, row = y, idx = int k, len = 1\<rparr>"
      using Suc.prems(1) st by (simp add: scanState_Suc scanPixel_change)
    from False sh have k: "0 < k" by (cases k) auto
    then have ih: "\<forall>x. idx sp0 \<le> x \<and> x < int k \<longrightarrow> At msk x y = color sp0"
      using Suc.IH[OF st] by simp
    from sh k have "idx sp0 \<le> int k - 1" by simp
    with ih have "At msk (int k - 1) y = color sp0" by simp
    with False have "At msk (int k - 1) y \<noteq> At msk (int k) y" by simp
    moreover have "At msk x y = At msk (int k) y" if "int k \<le> x" "x < int (Suc k)" for x
    proof -
      from that have "x = int k" by simp
      then show ?thesis by simp
    qed
    moreover have "color sp = At msk (int k) y" "idx sp = int k" using sp by simp_all
    moreover have "int k - 1 = idx sp - 1" using sp by simp
    ultimately show ?thesis by metis
  qed
qed

lemma isMask_At:
  assumes "isMask msk" "inBounds msk x y"
  shows "At msk x y = RGBAWhite \<or> At msk x y = RGBABlack"
proof -
  from assms(2) have "y \<in> set (go_range (Dy msk))" "x \<in> set (go_range (Dx msk))"
    by (simp_all add: set_go_range inBounds_def)
  with assms(1) show ?thesis
    unfolding isMask_def list_all_iff by blast
qed

lemma White_neq_Black: "RGBAWhite \<noteq> RGBABlack"
  by (simp add: RGBAWhite_def RGBABlack_def)

lemma scanState_keep:
  assumes m: "isMask msk" and y: "0 \<le> y" "y < Dy msk"
      and st: "scanState msk m spans y k = (keep, sp, out)" and k: "int k \<le> Dx msk"
  shows "keep \<longleftrightarrow> color sp = RGBAWhite"
  using st k
proof (induction k arbitrary: keep sp out)
  case 0
  then show ?case by (auto simp: scanState_0)
next
  case (Suc k)
  obtain keep0 sp0 out0 where st0: "scanState msk m spans y k = (keep0, sp0, out0)"
    by (cases "scanState msk m spans y k") auto
  from Suc.prems(2) have kk: "int k \<le> Dx msk" "int k < Dx msk" by simp_all
  note ih = Suc.IH[OF st0 kk(1)]
  note sh = scanState_shape[OF st0]
  show ?case
  proof (cases "At msk (int k) y = color sp0")
    case True
    with Suc.prems(1) st0 ih show ?thesis
      by (auto simp: scanState_Suc scanPixel_same)
  next
    case False
    then have e: "keep = (\<not> keep0)" "color sp = At msk (int k) y"
      using Suc.prems(1) st0 by (auto simp: scanState_Suc scanPixel_change)
    from False sh have k0: "0 < k" by (cases k) auto
    with sh have "idx sp0 \<le> int k - 1" "int k - 1 < int k" by simp_all
    with scanState_run[OF st0 k0] have c0: "color sp0 = At msk (int k - 1) y" by metis
    have "inBounds msk (int k - 1) y" "inBounds msk (int k) y"
      using k0 kk y by (simp_all add: inBounds_def)
    with isMask_At[OF m] c0 
    have b: "color sp0 = RGBAWhite \<or> color sp0 = RGBABlack"
      "At msk (int k) y = RGBAWhite \<or> At msk (int k) y = RGBABlack" by metis+
    with False White_neq_Black ih show ?thesis unfolding e by metis
  qed
qed

lemma scanState_flush:
  assumes "scanState msk m spans y (Suc k) = (keep, sp, out)" "int k = Dx msk - 1" "keep"
  shows "sp \<in> set out"
proof -
  obtain keep0 sp0 out0 where st0: "scanState msk m spans y k = (keep0, sp0, out0)"
    by (cases "scanState msk m spans y k") auto
  show ?thesis
  proof (cases "At msk (int k) y = color sp0")
    case True
    with assms st0 show ?thesis by (auto simp: scanState_Suc scanPixel_same)
  next
    case False
    with assms st0 show ?thesis by (auto simp: scanState_Suc scanPixel_change)
  qed
qed

lemma scanPixel_mono: "set (snd (snd st)) \<subseteq> set (snd (snd (scanPixel msk m y st x)))"
  by (cases st) (auto simp: scanPixel_def)

lemma scanState_mono: "set spans \<subseteq> set (snd (snd (scanState msk m spans y k)))"
proof (induction k)
  case 0
  show ?case by (simp add: scanState_0)
next
  case (Suc k)
  have "set spans \<subseteq> set (snd (snd (scanState msk m spans y k)))" by fact
  also have "\<dots> \<subseteq> set (snd (snd (scanPixel msk m y (scanState msk m spans y k) (int k))))"
    by (rule scanPixel_mono)
  finally show ?case unfolding scanState_Suc .
qed

lemma scanRow_mono: "set spans \<subseteq> set (scanRow msk m spans y)"
  unfolding scanRow_scanState by (rule scanState_mono)

lemma scanRows_mono: "set spans \<subseteq> set (foldl (scanRow msk m) spans ys)"
proof (induction ys arbitrary: spans)
  case Nil
  show ?case by simp
next
  case (Cons y ys)
  show ?case using scanRow_mono[of spans msk m y] Cons[of "scanRow msk m spans y"] by auto
qed

lemma scanRows_row:
  assumes "y \<in> set ys" "\<And>spans. s \<in> set (scanRow msk m spans y)"
  shows "s \<in> set (foldl (scanRow msk m) spans0 ys)"
proof -
  from assms(1) obtain as bs where "ys = as @ y # bs" by (auto dest: split_list)
  then have "foldl (scanRow msk m) spans0 ys
     = foldl (scanRow msk m) (scanRow msk m (foldl (scanRow msk m) spans0 as) y) bs" by simp
  with scanRows_mono[of "scanRow msk m (foldl (scanRow msk m) spans0 as) y" msk m bs] assms(2)
  show ?thesis by auto
qed

subsection \<open>The trailing run of a line\<close>

text \<open>
  Claim C1. Let \<open>msk\<close> be a mask (every pixel white or black) and \<open>y\<close> one of its
  lines. If the line ends inside a white run, that is, the pixels from \<open>s\<close> to the end
  of the line are white and the run starts at \<open>s\<close> (\<open>s\<close> is the first pixel of the
  line or the pixel before it is not white), then \<open>generateSortSpans\<close> emits that run
  as a span, whatever \<open>minSpanLen\<close> is.
\<close>

theorem trailing_run_emitted:
  assumes m: "isMask msk" and y: "0 \<le> y" "y < Dy msk" and s: "0 \<le> s" "s < Dx msk"
      and white: "\<forall>x. s \<le> x \<and> x < Dx msk \<longrightarrow> At msk x y = RGBAWhite"
      and start: "s = 0 \<or> At msk (s - 1) y \<noteq> RGBAWhite"
  shows "\<lparr>color = RGBAWhite, row = y, idx = s, len = Dx msk - s\<rparr>
           \<in> set (generateSortSpans msk minSpanLen)"
proof -
  let ?t = "\<lparr>color = RGBAWhite, row = y, idx = s, len = Dx msk - s\<rparr>"
  have row: "?t \<in> set (scanRow msk minSpanLen spans y)" for spans
  proof -
    from s obtain k where k: "nat (Dx msk) = Suc k" by (cases "nat (Dx msk)") auto
    then have dk1: "Dx msk = int (Suc k)" by linarith
    have dk2: "int k = Dx msk - 1" unfolding dk1 by simp
    obtain keep sp out where st: "scanState msk minSpanLen spans y (Suc k) = (keep, sp, out)"
      by (cases "scanState msk minSpanLen spans y (Suc k)") auto
    note sh = scanState_shape[OF st]
    have run: "\<forall>x. idx sp \<le> x \<and> x < Dx msk \<longrightarrow> At msk x y = color sp"
      "0 < idx sp \<longrightarrow> At msk (idx sp - 1) y \<noteq> color sp"
      using scanState_run[OF st] unfolding dk1 by simp_all
    have bnd: "0 \<le> idx sp" "idx sp + len sp = Dx msk" "1 \<le> len sp" "row sp = y"
      using sh unfolding dk1 by simp_all
    then have "idx sp \<le> Dx msk - 1" "Dx msk - 1 < Dx msk" by linarith+
    then have "At msk (Dx msk - 1) y = color sp" using run(1)[rule_format, of "Dx msk - 1"] by simp
    moreover have "s \<le> Dx msk - 1" "Dx msk - 1 < Dx msk" using s by linarith+
    then have "At msk (Dx msk - 1) y = RGBAWhite" using white[rule_format, of "Dx msk - 1"] by simp
    ultimately have c: "color sp = RGBAWhite" by simp
    have "int (Suc k) \<le> Dx msk" unfolding dk1 by simp
    from scanState_keep[OF m y st this] c have "keep" by simp
    have "idx sp = s"
    proof (rule ccontr)
      assume ne: "idx sp \<noteq> s"
      show False
      proof (cases "idx sp < s")
        case True
        then have "idx sp \<le> s - 1" "s - 1 < Dx msk" "s \<noteq> 0" using s bnd by linarith+
        then have "At msk (s - 1) y = RGBAWhite" using run(1)[rule_format, of "s - 1"] c by simp
        with start \<open>s \<noteq> 0\<close> show False by simp
      next
        case False
        with ne have "s \<le> idx sp - 1" "idx sp - 1 < Dx msk" "0 < idx sp" using s bnd by linarith+
        then have "At msk (idx sp - 1) y = RGBAWhite" "At msk (idx sp - 1) y \<noteq> RGBAWhite"
          using white[rule_format, of "idx sp - 1"] run(2) c by simp_all
        then show False by simp
      qed
    qed
    moreover have "len sp = Dx msk - idx sp" using bnd by linarith
    ultimately have "sp = ?t" using bnd(4) c by (cases sp) simp
    moreover have "sp \<in> set out" by (rule scanState_flush[OF st dk2 \<open>keep\<close>])
    ultimately show ?thesis unfolding scanRow_scanState k st by simp
  qed
  have "y \<in> set (go_range (Dy msk))" using y by (simp add: set_go_range)
  then show ?thesis unfolding generateSortSpans_def by (rule scanRows_row) (rule row)
qed

theorem trailing_run_emitted_witness:
  "\<lparr>color = RGBAWhite, row = 0, idx = 2, len = 1\<rparr>
     \<in> set (generateSortSpans (ofRows [[RGBAWhite, RGBABlack, RGBAWhite]]) 5)"
proof -
  let ?m = "ofRows [[RGBAWhite, RGBABlack, RGBAWhite]]"
  have 1: "isMask ?m" by code_simp
  have d: "Dx ?m = 3" "Dy ?m = 1" by (simp_all add: ofRows_def)
  have 2: "\<forall>x. 2 \<le> x \<and> x < Dx ?m \<longrightarrow> At ?m x 0 = RGBAWhite"
  proof (intro allI impI)
    fix x :: int assume "2 \<le> x \<and> x < Dx ?m"
    then have "x = 2" using d by simp
    then show "At ?m x 0 = RGBAWhite" by (simp add: At_def inBounds_def ofRows_def)
  qed
  have 3: "(2::int) = 0 \<or> At ?m (2 - 1) 0 \<noteq> RGBAWhite"
    by (simp add: At_def inBounds_def ofRows_def RGBAWhite_def RGBABlack_def)
  have "\<lparr>color = RGBAWhite, row = 0, idx = 2, len = Dx ?m - 2\<rparr>
           \<in> set (generateSortSpans ?m 5)"
    by (rule trailing_run_emitted[OF 1 _ _ _ _ 2 3]) (simp_all add: d)
  then show ?thesis by (simp add: d)
qed

subsection \<open>Minimum lengths below one\<close>

lemma scanState_clamp:
  assumes "m < 1"
  shows "scanState msk m spans y k = scanState msk 1 spans y k"
proof (induction k)
  case 0
  show ?case by (simp add: scanState_0)
next
  case (Suc k)
  obtain keep sp out where st: "scanState msk 1 spans y k = (keep, sp, out)"
    by (cases "scanState msk 1 spans y k") auto
  note sh = scanState_shape[OF st]
  show ?case
  proof (cases "At msk (int k) y = color sp")
    case True
    then show ?thesis by (simp add: scanState_Suc Suc.IH st scanPixel_same)
  next
    case False
    with sh have "0 < k" by (cases k) auto
    with sh have "1 \<le> len sp" by simp
    with assms have "m \<le> len sp" by simp
    with \<open>1 \<le> len sp\<close> False show ?thesis
      by (simp add: scanState_Suc Suc.IH st scanPixel_change)
  qed
qed

lemma scanRow_clamp: "m < 1 \<Longrightarrow> scanRow msk m = scanRow msk 1"
  by (intro ext) (simp add: scanRow_scanState scanState_clamp)

text \<open>
  Claim C10. A minimum length below 1 is neither rejected nor rewritten by the
  detector, but it has the effect of the value 1: for every grid, \<open>generateSortSpans\<close>
  with \<open>minSpanLen < 1\<close> returns exactly the spans it returns with \<open>minSpanLen = 1\<close>,
  because every run it closes has at least one pixel.
\<close>

theorem generateSortSpans_clamp:
  "minSpanLen < 1 \<Longrightarrow> generateSortSpans msk minSpanLen = generateSortSpans msk 1"
  by (simp add: generateSortSpans_def scanRow_clamp)

theorem generateSortSpans_clamp_witness:
  "generateSortSpans (ofRows [[RGBAWhite, RGBABlack, RGBAWhite, RGBAWhite, RGBABlack]]) (- 3)
   = generateSortSpans (ofRows [[RGBAWhite, RGBABlack, RGBAWhite, RGBAWhite, RGBABlack]]) 1
   \<and> generateSortSpans (ofRows [[RGBAWhite, RGBABlack, RGBAWhite, RGBAWhite, RGBABlack]]) 1
   = [\<lparr>color = RGBAWhite, row = 0, idx = 0, len = 1\<rparr>, \<lparr>color = RGBAWhite, row = 0, idx = 2, len = 2\<rparr>]"
proof -
  have "(- 3 :: int) < 1" by simp
  from generateSortSpans_clamp[OF this]
  have "generateSortSpans (ofRows [[RGBAWhite, RGBABlack, RGBAWhite, RGBAWhite, RGBABlack]]) (- 3)
   = generateSortSpans (ofRows [[RGBAWhite, RGBABlack, RGBAWhite, RGBAWhite, RGBABlack]]) 1" .
  moreover have "generateSortSpans (ofRows [[RGBAWhite, RGBABlack, RGBAWhite, RGBAWhite, RGBABlack]]) 1
   = [\<lparr>color = RGBAWhite, row = 0, idx = 0, len = 1\<rparr>, \<lparr>color = RGBAWhite, row = 0, idx = 2, len = 2\<rparr>]"
    by code_simp
  ultimately show ?thesis by simp
qed

subsection \<open>The example line of the specification\<close>

text \<open>
  Claim C2 on the code. On the single line \<open>W W W B B W W\<close> the detector returns the
  spans \<open>[0,3)\<close> and \<open>[5,7)\<close> for \<open>minSpanLen = 2\<close>, as the claim says. For
  \<open>minSpanLen = 4\<close> the claim expects no span, but the detector returns the trailing run
  \<open>[5,7)\<close> of length 2: the flush at the end of a line leaves out the length test that the
  closing of a run inside the line makes.
\<close>

theorem detection_example_line:
  "generateSortSpans
     (ofRows [[RGBAWhite, RGBAWhite, RGBAWhite, RGBABlack, RGBABlack, RGBAWhite, RGBAWhite]]) 2
   = [\<lparr>color = RGBAWhite, row = 0, idx = 0, len = 3\<rparr>,
      \<lparr>color = RGBAWhite, row = 0, idx = 5, len = 2\<rparr>]
   \<and> generateSortSpans
     (ofRows [[RGBAWhite, RGBAWhite, RGBAWhite, RGBABlack, RGBABlack, RGBAWhite, RGBAWhite]]) 4
   = [\<lparr>color = RGBAWhite, row = 0, idx = 5, len = 2\<rparr>]"
  by code_simp


subsection \<open>Spans lie in one line and do not overlap\<close>

text \<open>
  The detector of the current program keeps every span inside its line
  (\<open>0 \<le> idx\<close>, \<open>1 \<le> len\<close>, \<open>idx + len \<le> Dx\<close>, \<open>0 \<le> row < Dy\<close>) and emits the spans in
  scan order, each ending before the next one of its line starts.
\<close>

lemma scanState_spansOk:
  assumes y: "0 \<le> y" "y < h" and w: "Dx msk = w"
      and ok: "spansOk w h spans" and rows: "\<forall>t\<in>set spans. row t < y"
      and st: "scanState msk m spans y k = (keep, sp, out)" and k: "int k < w"
  shows "spansOk w h out
         \<and> (\<forall>t\<in>set out. row t < y \<or> (row t = y \<and> idx t + len t \<le> idx sp))"
  using st k
proof (induction k arbitrary: keep sp out)
  case 0
  with ok rows show ?case by (auto simp: scanState_0)
next
  case (Suc k)
  obtain keep0 sp0 out0 where st0: "scanState msk m spans y k = (keep0, sp0, out0)"
    by (cases "scanState msk m spans y k") auto
  from Suc.prems(2) have kk: "int k < w" "int k \<noteq> Dx msk - 1" using w by simp_all
  note ih = Suc.IH[OF st0 kk(1)]
  note sh = scanState_shape[OF st0]
  show ?case
  proof (cases "At msk (int k) y = color sp0")
    case True
    then have e: "sp = sp0\<lparr>len := len sp0 + 1\<rparr>" "out = out0"
      using Suc.prems(1) st0 kk(2) by (auto simp: scanState_Suc scanPixel_same)
    show ?thesis using ih unfolding e by simp
  next
    case False
    then have e: "sp = \<lparr>color = At msk (int k) y, row = y, idx = int k, len = 1\<rparr>"
       "out = (if keep0 \<and> m \<le> len sp0 then out0 @ [sp0] else out0)"
      using Suc.prems(1) st0 kk(2) by (auto simp: scanState_Suc scanPixel_change)
    from False sh have k0: "0 < k" by (cases k) auto
    with sh have b: "row sp0 = y" "0 \<le> idx sp0" "idx sp0 + len sp0 = int k" "1 \<le> len sp0"
      by simp_all
    have in1: "spanInLine w h sp0" using b y kk(1) by (simp add: spanInLine_def)
    have bf: "\<forall>t\<in>set out0. before t sp0" using ih b by (auto simp: before_def)
    have end0: "\<forall>t\<in>set out0. row t < y \<or> (row t = y \<and> idx t + len t \<le> int k)"
      using ih b by fastforce
    show ?thesis
    proof (cases "keep0 \<and> m \<le> len sp0")
      case True
      then have o: "out = out0 @ [sp0]" using e by simp
      have "spansOk w h out" using ih in1 bf unfolding o spansOk_def
        by (simp add: sorted_wrt_append)
      moreover have "\<forall>t\<in>set out. row t < y \<or> (row t = y \<and> idx t + len t \<le> idx sp)"
        using end0 b unfolding o e(1) by auto
      ultimately show ?thesis by simp
    next
      case False
      then have o: "out = out0" using e by presburger
      show ?thesis using ih end0 unfolding o e(1) by simp
    qed
  qed
qed


lemma scanRow_spansOk:
  assumes y: "0 \<le> y" "y < h" and w: "Dx msk = w"
      and ok: "spansOk w h spans" and rows: "\<forall>t\<in>set spans. row t < y"
  shows "spansOk w h (scanRow msk m spans y) \<and> (\<forall>t\<in>set (scanRow msk m spans y). row t < y + 1)"
proof (cases "nat w")
  case 0
  then have "scanRow msk m spans y = spans"
    unfolding scanRow_scanState w by (simp add: scanState_0)
  with ok rows show ?thesis by auto
next
  case (Suc k)
  then have kw: "int k < w" "int k = Dx msk - 1" "int k + 1 = w" using w by linarith+
  obtain keep0 sp0 out0 where st0: "scanState msk m spans y k = (keep0, sp0, out0)"
    by (cases "scanState msk m spans y k") auto
  note inv = scanState_spansOk[OF y w ok rows st0 kw(1)]
  note sh = scanState_shape[OF st0]
  from inv have ok0: "list_all (spanInLine w h) out0" "sorted_wrt before out0"
    by (simp_all add: spansOk_def)
  have r0: "\<forall>t\<in>set out0. row t < y + 1" using inv by fastforce
  have res: "scanRow msk m spans y = snd (snd (scanPixel msk m y (keep0, sp0, out0) (int k)))"
    unfolding scanRow_scanState w Suc scanState_Suc st0 ..
  show ?thesis
  proof (cases "At msk (int k) y = color sp0")
    case True
    let ?sp = "sp0\<lparr>len := len sp0 + 1\<rparr>"
    have r: "scanRow msk m spans y = (if keep0 then out0 @ [?sp] else out0)"
      unfolding res using True kw(2) by (simp add: scanPixel_same)
    have "0 \<le> len sp0" using sh by (cases k) auto
    then have in1: "spanInLine w h ?sp" using sh y kw(3) by (simp add: spanInLine_def)
    have bf: "\<forall>t\<in>set out0. before t ?sp" using inv sh by (auto simp: before_def)
    have "row ?sp < y + 1" using sh by simp
    with in1 bf ok0 r0 show ?thesis unfolding r spansOk_def
      by (simp add: sorted_wrt_append)
  next
    case False
    let ?new = "\<lparr>color = At msk (int k) y, row = y, idx = int k, len = 1\<rparr>"
    have r: "scanRow msk m spans y =
        (if keep0 \<and> m \<le> len sp0 then out0 @ [sp0] else out0) @ (if \<not> keep0 then [?new] else [])"
      unfolding res using False kw(2) by (simp add: scanPixel_change)
    from False sh have k0: "0 < k" by (cases k) auto
    with sh have b: "row sp0 = y" "0 \<le> idx sp0" "idx sp0 + len sp0 = int k" "1 \<le> len sp0"
      by simp_all
    have in0: "spanInLine w h sp0" using b y kw(1) by (simp add: spanInLine_def)
    have in1: "spanInLine w h ?new" using y kw(3) by (simp add: spanInLine_def)
    have bf0: "\<forall>t\<in>set out0. before t sp0" using inv b by (auto simp: before_def)
    have bf1: "\<forall>t\<in>set out0. before t ?new" using inv b by (fastforce simp: before_def)
    show ?thesis
    proof (cases keep0)
      case True
      with in0 bf0 ok0 r0 b show ?thesis unfolding r spansOk_def
        by (simp add: sorted_wrt_append)
    next
      case False
      with in1 bf1 ok0 r0 show ?thesis unfolding r spansOk_def
        by (simp add: sorted_wrt_append)
    qed
  qed
qed

lemma scanRows_spansOk:
  assumes "int j \<le> Dy msk"
  shows "spansOk (Dx msk) (Dy msk) (foldl (scanRow msk m) [] (go_range (int j)))
         \<and> (\<forall>t\<in>set (foldl (scanRow msk m) [] (go_range (int j))). row t < int j)"
  using assms
proof (induction j)
  case 0
  show ?case by (simp add: go_range_def spansOk_def)
next
  case (Suc j)
  then have j: "0 \<le> int j" "int j < Dy msk" by simp_all
  from Suc have ih: "spansOk (Dx msk) (Dy msk) (foldl (scanRow msk m) [] (go_range (int j)))"
      "\<forall>t\<in>set (foldl (scanRow msk m) [] (go_range (int j))). row t < int j" by simp_all
  have "int (Suc j) = int j + 1" by simp
  with scanRow_spansOk[OF j refl ih, of m] show ?case
    unfolding go_range_Suc by (auto simp del: of_nat_Suc)
qed

lemma generateSortSpans_spansOk: 
  "spansOk (Dx msk) (Dy msk) (generateSortSpans msk minSpanLen)"
proof -
  have "int (nat (Dy msk)) \<le> Dy msk \<or> Dy msk < 0" by linarith
  then show ?thesis
  proof
    assume "int (nat (Dy msk)) \<le> Dy msk"
    from scanRows_spansOk[OF this, of minSpanLen] show ?thesis
      unfolding generateSortSpans_def go_range_nat by simp
  next
    assume "Dy msk < 0"
    then show ?thesis by (simp add: generateSortSpans_def go_range_def spansOk_def)
  qed
qed

text \<open>Spans in scan order cover disjoint positions.\<close>

lemma before_not_covers:
  "before a sp \<Longrightarrow> covers sp x y \<Longrightarrow> \<not> covers a x y"
  "before sp b \<Longrightarrow> covers sp x y \<Longrightarrow> \<not> covers b x y"
  unfolding before_def covers_def by linarith+

lemma generateSortSpans_in_line:
  "sp \<in> set (generateSortSpans msk minSpanLen) \<Longrightarrow> spanInLine (Dx msk) (Dy msk) sp"
  using generateSortSpans_spansOk[of msk minSpanLen] by (simp add: spansOk_def list_all_iff)

lemma generateSortSpans_disjoint:
  assumes "i < j" "j < length (generateSortSpans msk minSpanLen)"
      and "covers (generateSortSpans msk minSpanLen ! i) x y"
  shows "\<not> covers (generateSortSpans msk minSpanLen ! j) x y"
proof -
  have "sorted_wrt before (generateSortSpans msk minSpanLen)"
    using generateSortSpans_spansOk[of msk minSpanLen] by (simp add: spansOk_def)
  from sorted_wrt_nth_less[OF this assms(1,2)] assms(3) show ?thesis
    by (rule before_not_covers(2))
qed

text \<open>
  Claim C7 on the older detector of \<^verbatim>\<open>pixelsort.go\<close>. It keeps one run across the
  lines of the image: on the 2 by 2 mask with lines \<open>B W\<close> and \<open>W B\<close> the white run that
  starts at the end of line 0 is continued into line 1 and emitted with start 1 and
  length 2, beyond the line length 2. The current detector does not do this: its spans
  lie in their lines (\<open>generateSortSpans_in_line\<close>) and are pairwise disjoint
  (\<open>generateSortSpans_disjoint\<close>).
\<close>

theorem generateSortSpans_v1_crosses_lines:
  "generateSortSpans_v1 (ofRows [[RGBABlack, RGBAWhite], [RGBAWhite, RGBABlack]]) 2
   = [\<lparr>color = RGBAWhite, row = 0, idx = 1, len = 2\<rparr>]
   \<and> \<not> spanInLine 2 2 \<lparr>color = RGBAWhite, row = 0, idx = 1, len = 2\<rparr>"
  by code_simp

subsection \<open>Reading and writing pixels\<close>

lemma Set_px_dims [simp]: "Dx (Set_px m x y c) = Dx m" "Dy (Set_px m x y c) = Dy m"
  by (simp_all add: Set_px_def)

lemma inBounds_Set_px [simp]: "inBounds (Set_px m x y c) x' y' = inBounds m x' y'"
  by (simp add: inBounds_def)

lemma At_Set_px:
  "At (Set_px m x y c) x' y' = (if inBounds m x y \<and> x' = x \<and> y' = y then c else At m x' y')"
  by (auto simp: At_def Set_px_def inBounds_def)

lemma draw_Src_dims [simp]: "Dx (draw_Src src) = Dx src" "Dy (draw_Src src) = Dy src"
  by (simp_all add: draw_Src_def NewRGBA_def)

lemma At_draw_Src [simp]: "At (draw_Src src) x y = At src x y"
  by (simp add: At_def draw_Src_def NewRGBA_def inBounds_def)

lemma channel16_eq_0: "channel16 v = 0 \<longleftrightarrow> v = 0"
proof -
  have "channel16 v = 0 \<longleftrightarrow> unat (channel16 v) = 0" by (simp add: unat_eq_0)
  also have "\<dots> \<longleftrightarrow> unat v = 0" by (simp add: unat_channel16)
  also have "\<dots> \<longleftrightarrow> v = 0" by (simp add: unat_eq_0)
  finally show ?thesis .
qed

lemma writePixel_eq:
  "writePixel sp c out i = Set_px out (idx sp + i) (row sp) (written (c ! nat i))"
  by (auto simp: writePixel_def color_RGBA_def Let_def channel16_eq_0 written_def Set_px_def
      inBounds_def fun_eq_iff)

lemma writeSpan_dims [simp]:
  "Dx (foldl (writePixel sp c) out is) = Dx out" "Dy (foldl (writePixel sp c) out is) = Dy out"
  by (induction "is" arbitrary: out) (simp_all add: writePixel_eq)

lemma inBounds_writeSpan [simp]:
  "inBounds (foldl (writePixel sp c) out is) x y = inBounds out x y"
  by (simp add: inBounds_def)

lemma At_writeSpan:
  "At (foldl (writePixel sp c) out (go_range (int n))) x y =
     (if y = row sp \<and> idx sp \<le> x \<and> x < idx sp + int n \<and> inBounds out x y
      then written (c ! nat (x - idx sp)) else At out x y)"
proof (induction n)
  case 0
  show ?case by (auto simp: go_range_def)
next
  case (Suc n)
  let ?F = "foldl (writePixel sp c) out (go_range (int n))"
  have "foldl (writePixel sp c) out (go_range (int (Suc n)))
      = Set_px ?F (idx sp + int n) (row sp) (written (c ! n))"
    unfolding go_range_Suc by (simp add: writePixel_eq[of sp c ?F])
  then have "At (foldl (writePixel sp c) out (go_range (int (Suc n)))) x y
      = (if inBounds out (idx sp + int n) (row sp) \<and> x = idx sp + int n \<and> y = row sp
         then written (c ! n) else At ?F x y)"
    by (simp add: At_Set_px)
  also have "\<dots> = (if y = row sp \<and> idx sp \<le> x \<and> x < idx sp + int (Suc n) \<and> inBounds out x y
      then written (c ! nat (x - idx sp)) else At out x y)"
  proof (cases "x = idx sp + int n")
    case True
    then show ?thesis unfolding Suc by auto
  next
    case False
    then have "x < idx sp + int (Suc n) \<longleftrightarrow> x < idx sp + int n" by auto
    with False show ?thesis unfolding Suc by simp
  qed
  finally show ?case .
qed

lemma sortSpan_dims [simp]:
  "Dx (sortSpan srt src reverse out sp) = Dx out" "Dy (sortSpan srt src reverse out sp) = Dy out"
  by (simp_all add: sortSpan_def Let_def)

lemma At_sortSpan:
  "At (sortSpan srt src reverse out sp) x y =
     (if 1 < len sp \<and> covers sp x y \<and> inBounds out x y
      then written (srt (hueLess reverse) (gatherSpan src sp) ! nat (x - idx sp))
      else At out x y)"
proof (cases "1 < len sp")
  case True
  define n where "n = nat (len sp)"
  with True have n: "len sp = int n" by simp
  have "At (sortSpan srt src reverse out sp) x y =
      At (foldl (writePixel sp (srt (hueLess reverse) (gatherSpan src sp))) out (go_range (int n))) x y"
    using True by (simp add: sortSpan_def Let_def n)
  then show ?thesis using True unfolding At_writeSpan by (auto simp: covers_def n)
next
  case False
  then show ?thesis by (simp add: sortSpan_def)
qed

lemma sortSpans_fold_dims [simp]:
  "Dx (foldl (sortSpan srt src reverse) out spans) = Dx out"
  "Dy (foldl (sortSpan srt src reverse) out spans) = Dy out"
  by (induction spans arbitrary: out) simp_all

lemma At_sortSpans_fold_frame:
  assumes "\<forall>sp\<in>set spans. 1 < len sp \<longrightarrow> \<not> covers sp x y"
  shows "At (foldl (sortSpan srt src reverse) out spans) x y = At out x y"
  using assms
proof (induction spans arbitrary: out)
  case Nil
  show ?case by simp
next
  case (Cons sp spans)
  then show ?case by (auto simp: At_sortSpan)
qed

subsection \<open>The sorting routine\<close>

lemma mset_insertLeft: "mset (insertLeft lt x ys) = add_mset x (mset ys)"
  by (induction ys) simp_all

lemma set_insertLeft: "set (insertLeft lt x ys) = insert x (set ys)"
  by (induction ys) auto

lemma mset_insertion_fold:
  "mset (foldl (\<lambda>acc x. insertLeft lt x acc) acc xs) = mset acc + mset xs"
  by (induction xs arbitrary: acc) (simp_all add: mset_insertLeft)

lemma sorted_insertLeft:
  assumes swo: "strict_weak_order lt" and s: "sorted_wrt (\<lambda>a b. \<not> lt a b) ys"
  shows "sorted_wrt (\<lambda>a b. \<not> lt a b) (insertLeft lt x ys)"
  using s
proof (induction ys)
  case Nil
  show ?case by simp
next
  case (Cons y ys)
  from swo have irr: "\<And>a. \<not> lt a a" and tr: "\<And>a b c. lt a b \<Longrightarrow> lt b c \<Longrightarrow> lt a c"
    and neg: "\<And>a b c. lt a c \<Longrightarrow> lt a b \<or> lt b c"
    unfolding strict_weak_order_def by blast+
  show ?case
  proof (cases "lt x y")
    case True
    then have "\<not> lt y x" using irr tr by blast
    with True Cons show ?thesis by (auto simp: set_insertLeft)
  next
    case False
    have "\<not> lt x z" if "z \<in> set ys" for z
    proof
      assume "lt x z"
      then have "lt x y \<or> lt y z" by (rule neg)
      with False Cons.prems that show False by auto
    qed
    with False Cons.prems show ?thesis by auto
  qed
qed

lemma sorted_insertion_fold:
  assumes "strict_weak_order lt" "sorted_wrt (\<lambda>a b. \<not> lt a b) acc"
  shows "sorted_wrt (\<lambda>a b. \<not> lt a b) (foldl (\<lambda>acc x. insertLeft lt x acc) acc xs)"
  using assms(2)
  by (induction xs arbitrary: acc) (simp_all add: sorted_insertLeft[OF assms(1)])

lemma insertionSort_contract: "sort_contract insertionSort"
  unfolding sort_contract_def
proof (intro allI impI conjI)
  fix lt :: "'a \<Rightarrow> 'a \<Rightarrow> bool" and xs
  assume swo: "strict_weak_order lt"
  show "mset (insertionSort lt xs) = mset xs"
    by (simp add: insertionSort_def mset_insertion_fold)
  have "sorted_wrt (\<lambda>a b. \<not> lt a b) (foldl (\<lambda>acc x. insertLeft lt x acc) [] xs)"
    by (rule sorted_insertion_fold[OF swo]) simp
  then show "sorted_wrt (\<lambda>a b. \<not> lt b a) (insertionSort lt xs)"
    by (simp add: insertionSort_def sorted_wrt_rev)
qed

lemma hueLess_strict_weak_order: "strict_weak_order (hueLess reverse)"
  unfolding strict_weak_order_def hueLess_def Let_def by auto

lemma sorted_by_contract:
  assumes "sort_contract sort_Slice"
  shows "mset (sort_Slice (hueLess reverse) xs) = mset xs"
    and "sorted_wrt (\<lambda>a b. if reverse then getHue a \<le> getHue b else getHue b \<le> getHue a)
           (sort_Slice (hueLess reverse) xs)"
proof -
  from assms hueLess_strict_weak_order[of reverse]
  have c: "mset (sort_Slice (hueLess reverse) xs) = mset xs"
    "sorted_wrt (\<lambda>a b. \<not> hueLess reverse b a) (sort_Slice (hueLess reverse) xs)"
    unfolding sort_contract_def by blast+
  show "mset (sort_Slice (hueLess reverse) xs) = mset xs" by (rule c(1))
  have "(\<lambda>a b. \<not> hueLess reverse b a)
      = (\<lambda>a b. if reverse then getHue a \<le> getHue b else getHue b \<le> getHue a)"
    by (auto simp: hueLess_def Let_def fun_eq_iff)
  with c(2) show "sorted_wrt (\<lambda>a b. if reverse then getHue a \<le> getHue b else getHue b \<le> getHue a)
           (sort_Slice (hueLess reverse) xs)" by simp
qed

lemma spansOk_others:
  assumes ok: "spansOk w h spans" and sp: "sp \<in> set spans" and cov: "covers sp x y"
  shows "\<exists>as bs. spans = as @ sp # bs \<and> (\<forall>t\<in>set as \<union> set bs. \<not> covers t x y)"
proof -
  from sp obtain as bs where e: "spans = as @ sp # bs" by (auto dest: split_list)
  from ok have "sorted_wrt before (as @ sp # bs)" unfolding spansOk_def e by simp
  then have "\<forall>a\<in>set as. before a sp" "\<forall>b\<in>set bs. before sp b"
    by (auto simp: sorted_wrt_append)
  then have "\<forall>t\<in>set as \<union> set bs. \<not> covers t x y"
    using cov before_not_covers[of _ sp x y] before_not_covers(2)[of sp _ x y] by auto
  with e show ?thesis by blast
qed

lemma At_sortSpans_span:
  assumes ok: "spansOk (Dx src) (Dy src) spans" and sp: "sp \<in> set spans"
      and l: "1 < len sp" and i: "0 \<le> i" "i < len sp"
  shows "At (sortSpans srt src spans reverse) (idx sp + i) (row sp)
         = written (srt (hueLess reverse) (gatherSpan src sp) ! nat i)"
proof -
  let ?f = "sortSpan srt src reverse"
  have cov: "covers sp (idx sp + i) (row sp)" using i by (simp add: covers_def)
  from spansOk_others[OF ok sp cov] obtain as bs where e: "spans = as @ sp # bs"
    and oth: "\<forall>t\<in>set as \<union> set bs. \<not> covers t (idx sp + i) (row sp)"
    by blast
  from ok sp have "spanInLine (Dx src) (Dy src) sp" by (simp add: spansOk_def list_all_iff)
  then have inb: "inBounds (foldl ?f (draw_Src src) as) (idx sp + i) (row sp)"
    using i by (simp add: inBounds_def spanInLine_def)
  have "At (sortSpans srt src spans reverse) (idx sp + i) (row sp)
      = At (foldl ?f (?f (foldl ?f (draw_Src src) as) sp) bs) (idx sp + i) (row sp)"
    by (simp add: sortSpans_def e)
  also have "\<dots> = At (?f (foldl ?f (draw_Src src) as) sp) (idx sp + i) (row sp)"
    by (rule At_sortSpans_fold_frame) (use oth in simp)
  also have "\<dots> = written (srt (hueLess reverse) (gatherSpan src sp) ! nat i)"
    using l cov inb by (simp add: At_sortSpan)
  finally show ?thesis .
qed

lemma At_sortSpans_short:
  assumes ok: "spansOk (Dx src) (Dy src) spans" and sp: "sp \<in> set spans"
      and l: "len sp \<le> 1" and i: "0 \<le> i" "i < len sp"
  shows "At (sortSpans srt src spans reverse) (idx sp + i) (row sp) = At src (idx sp + i) (row sp)"
proof -
  have cov: "covers sp (idx sp + i) (row sp)" using i by (simp add: covers_def)
  from spansOk_others[OF ok sp cov] obtain as bs where e: "spans = as @ sp # bs"
    and oth: "\<forall>t\<in>set as \<union> set bs. \<not> covers t (idx sp + i) (row sp)"
    by blast
  have "\<forall>t\<in>set spans. 1 < len t \<longrightarrow> \<not> covers t (idx sp + i) (row sp)"
    using oth l unfolding e by auto
  then show ?thesis unfolding sortSpans_def by (simp add: At_sortSpans_fold_frame)
qed

lemma length_gatherSpan: "length (gatherSpan src sp) = nat (len sp)"
  by (simp add: gatherSpan_def go_range_def)

lemma example_hues:
  "getHue \<lparr>R = 240, G = 40, B = 0, A = 255\<rparr> = 10"
  "getHue \<lparr>R = 240, G = 0, B = 40, A = 255\<rparr> = 350"
  "getHue \<lparr>R = 120, G = 240, B = 0, A = 255\<rparr> = 90"
  "getHue \<lparr>R = 255, G = 0, B = 0, A = 255\<rparr> = 0"
  "getHue RGBAZero = 0"
  by (simp_all add: getHue_def color_RGBA_def float64_def go_Round_def channel16_def Let_def
      RGBAZero_def)

subsection \<open>Pixels outside the spans\<close>

text \<open>
  Claim C6. \<open>sortSpans\<close> returns a grid of the size of the source; at every position
  that no span covers it holds the source's pixel; with an empty span list it holds the
  source's pixel at every position. This needs no assumption on the sorting routine or
  on the spans.
\<close>

theorem sortSpans_frame:
  "Dx (sortSpans sort_Slice src spans reverse) = Dx src
   \<and> Dy (sortSpans sort_Slice src spans reverse) = Dy src
   \<and> ((\<forall>sp\<in>set spans. \<not> covers sp x y) \<longrightarrow>
        At (sortSpans sort_Slice src spans reverse) x y = At src x y)
   \<and> At (sortSpans sort_Slice src [] reverse) x y = At src x y"
  by (simp add: sortSpans_def At_sortSpans_fold_frame)

theorem sortSpans_frame_witness:
  "Dx (sortSpans insertionSort
         (ofRows [[\<lparr>R = 240, G = 40, B = 0, A = 255\<rparr>, \<lparr>R = 240, G = 0, B = 40, A = 255\<rparr>, RGBABlack]])
         [\<lparr>color = RGBAWhite, row = 0, idx = 0, len = 2\<rparr>] False) = 3
   \<and> At (sortSpans insertionSort
         (ofRows [[\<lparr>R = 240, G = 40, B = 0, A = 255\<rparr>, \<lparr>R = 240, G = 0, B = 40, A = 255\<rparr>, RGBABlack]])
         [\<lparr>color = RGBAWhite, row = 0, idx = 0, len = 2\<rparr>] False) 2 0 = RGBABlack"
proof -
  let ?src = "ofRows [[\<lparr>R = 240, G = 40, B = 0, A = 255\<rparr>, \<lparr>R = 240, G = 0, B = 40, A = 255\<rparr>, RGBABlack]]"
  let ?spans = "[\<lparr>color = RGBAWhite, row = 0, idx = 0, len = 2\<rparr>]"
  have d: "Dx ?src = 3" by (simp add: ofRows_def)
  have a: "At ?src 2 0 = RGBABlack" by (simp add: At_def inBounds_def ofRows_def)
  have nc: "\<forall>sp\<in>set ?spans. \<not> covers sp 2 0" by (simp add: covers_def)
  from sortSpans_frame[of insertionSort ?src ?spans False 2 0] nc
  show ?thesis unfolding d a by blast
qed

subsection \<open>Pixels inside the spans\<close>

text \<open>
  Claim C5, as amended. Let the sorting routine meet the contract of \<^verbatim>\<open>sort.Slice\<close> and
  let the spans lie in their lines in scan order without overlap (as the detector emits
  them). For a span longer than one pixel, the sorted slice is a permutation of the
  span's source pixels, in non-increasing order of \<open>getHue\<close> when \<open>reverse\<close> is false and
  in non-decreasing order when it is true, and position \<open>i\<close> of the span receives
  element \<open>i\<close> of the sorted slice with a fully transparent pixel replaced by magenta;
  when no source pixel of the span is fully transparent the positions receive exactly
  the sorted slice. A span of length at most 1 keeps its source pixels.
\<close>

theorem sortSpans_span:
  assumes c: "sort_contract sort_Slice" and ok: "spansOk (Dx src) (Dy src) spans"
      and sp: "sp \<in> set spans"
  shows "(1 < len sp \<longrightarrow>
            mset (sort_Slice (hueLess reverse) (gatherSpan src sp)) = mset (gatherSpan src sp)
          \<and> sorted_wrt (\<lambda>a b. if reverse then getHue a \<le> getHue b else getHue b \<le> getHue a)
               (sort_Slice (hueLess reverse) (gatherSpan src sp))
          \<and> (\<forall>i. 0 \<le> i \<and> i < len sp \<longrightarrow>
                 At (sortSpans sort_Slice src spans reverse) (idx sp + i) (row sp)
                 = written (sort_Slice (hueLess reverse) (gatherSpan src sp) ! nat i))
          \<and> ((\<forall>p\<in>set (gatherSpan src sp). A p \<noteq> 0) \<longrightarrow>
               (\<forall>i. 0 \<le> i \<and> i < len sp \<longrightarrow>
                 At (sortSpans sort_Slice src spans reverse) (idx sp + i) (row sp)
                 = sort_Slice (hueLess reverse) (gatherSpan src sp) ! nat i)))
       \<and> (len sp \<le> 1 \<longrightarrow>
            (\<forall>i. 0 \<le> i \<and> i < len sp \<longrightarrow>
               At (sortSpans sort_Slice src spans reverse) (idx sp + i) (row sp)
               = At src (idx sp + i) (row sp)))"
proof (intro conjI impI allI)
  let ?c = "sort_Slice (hueLess reverse) (gatherSpan src sp)"
  show "mset ?c = mset (gatherSpan src sp)" by (rule sorted_by_contract(1)[OF c])
  show "sorted_wrt (\<lambda>a b. if reverse then getHue a \<le> getHue b else getHue b \<le> getHue a) ?c"
    by (rule sorted_by_contract(2)[OF c])
next
  fix i assume "1 < len sp" "0 \<le> i \<and> i < len sp"
  then show "At (sortSpans sort_Slice src spans reverse) (idx sp + i) (row sp)
     = written (sort_Slice (hueLess reverse) (gatherSpan src sp) ! nat i)"
    using At_sortSpans_span[OF ok sp] by simp
next
  let ?c = "sort_Slice (hueLess reverse) (gatherSpan src sp)"
  fix i assume l: "1 < len sp" and opaque: "\<forall>p\<in>set (gatherSpan src sp). A p \<noteq> 0"
    and i: "0 \<le> i \<and> i < len sp"
  have m: "mset ?c = mset (gatherSpan src sp)" by (rule sorted_by_contract(1)[OF c])
  then have "length ?c = nat (len sp)" "set ?c = set (gatherSpan src sp)"
    using mset_eq_length[OF m] mset_eq_setD[OF m] by (simp_all add: length_gatherSpan)
  then have le: "length ?c = nat (len sp)" and se: "set ?c = set (gatherSpan src sp)" by simp_all
  from i have "nat i < nat (len sp)" by linarith
  then have "?c ! nat i \<in> set ?c" unfolding le[symmetric] by (rule nth_mem)
  then have "?c ! nat i \<in> set (gatherSpan src sp)" unfolding se .
  with opaque have "written (?c ! nat i) = ?c ! nat i" by (simp add: written_def)
  with At_sortSpans_span[OF ok sp l, of i sort_Slice reverse] i
  show "At (sortSpans sort_Slice src spans reverse) (idx sp + i) (row sp) = ?c ! nat i" by simp
next
  fix i assume "len sp \<le> 1" "0 \<le> i \<and> i < len sp"
  then show "At (sortSpans sort_Slice src spans reverse) (idx sp + i) (row sp)
     = At src (idx sp + i) (row sp)"
    using At_sortSpans_short[OF ok sp] by simp
qed

theorem sortSpans_span_witness:
  "At (sortSpans insertionSort
         (ofRows [[\<lparr>R = 240, G = 40, B = 0, A = 255\<rparr>, \<lparr>R = 240, G = 0, B = 40, A = 255\<rparr>,
                   \<lparr>R = 120, G = 240, B = 0, A = 255\<rparr>]])
         [\<lparr>color = RGBAWhite, row = 0, idx = 0, len = 3\<rparr>] False) 0 0
     = \<lparr>R = 240, G = 0, B = 40, A = 255\<rparr>
   \<and> At (sortSpans insertionSort
         (ofRows [[\<lparr>R = 240, G = 40, B = 0, A = 255\<rparr>, \<lparr>R = 240, G = 0, B = 40, A = 255\<rparr>,
                   \<lparr>R = 120, G = 240, B = 0, A = 255\<rparr>]])
         [\<lparr>color = RGBAWhite, row = 0, idx = 0, len = 3\<rparr>] False) 1 0
     = \<lparr>R = 120, G = 240, B = 0, A = 255\<rparr>
   \<and> At (sortSpans insertionSort
         (ofRows [[\<lparr>R = 240, G = 40, B = 0, A = 255\<rparr>, \<lparr>R = 240, G = 0, B = 40, A = 255\<rparr>,
                   \<lparr>R = 120, G = 240, B = 0, A = 255\<rparr>]])
         [\<lparr>color = RGBAWhite, row = 0, idx = 0, len = 3\<rparr>] False) 2 0
     = \<lparr>R = 240, G = 40, B = 0, A = 255\<rparr>"
proof -
  let ?src = "ofRows [[\<lparr>R = 240, G = 40, B = 0, A = 255\<rparr>, \<lparr>R = 240, G = 0, B = 40, A = 255\<rparr>,
                   \<lparr>R = 120, G = 240, B = 0, A = 255\<rparr>]]"
  let ?sp = "\<lparr>color = RGBAWhite, row = 0, idx = 0, len = 3\<rparr>"
  have d: "Dx ?src = 3" "Dy ?src = 1" by (simp_all add: ofRows_def)
  have ok: "spansOk (Dx ?src) (Dy ?src) [?sp]" unfolding d by code_simp
  have g: "gatherSpan ?src ?sp = [\<lparr>R = 240, G = 40, B = 0, A = 255\<rparr>,
      \<lparr>R = 240, G = 0, B = 40, A = 255\<rparr>, \<lparr>R = 120, G = 240, B = 0, A = 255\<rparr>]"
    by code_simp
  have s: "insertionSort (hueLess False) (gatherSpan ?src ?sp) = [\<lparr>R = 240, G = 0, B = 40, A = 255\<rparr>,
      \<lparr>R = 120, G = 240, B = 0, A = 255\<rparr>, \<lparr>R = 240, G = 40, B = 0, A = 255\<rparr>]"
    unfolding g by (simp add: insertionSort_def hueLess_def example_hues)
  have mem: "?sp \<in> set [?sp]" by simp
  have l: "1 < len ?sp" by simp
  from sortSpans_span[OF insertionSort_contract ok mem, of False] l
  have w: "\<forall>i. 0 \<le> i \<and> i < len ?sp \<longrightarrow>
      At (sortSpans insertionSort ?src [?sp] False) (idx ?sp + i) (row ?sp)
      = written (insertionSort (hueLess False) (gatherSpan ?src ?sp) ! nat i)"
    by blast
  from w[rule_format, of 0] w[rule_format, of 1] w[rule_format, of 2]
  show ?thesis unfolding s by (simp add: written_def)
qed

text \<open>
  Counterexample to C5 as stated. The source line holds a fully transparent pixel and an
  opaque red one, both of hue 0, and one span covers both. The pixels written back are
  magenta and red: not a permutation of the source pixels.
\<close>

theorem sortSpans_not_permutation:
  "generateSortSpans (ofRows [[RGBAWhite, RGBAWhite]]) 2
     = [\<lparr>color = RGBAWhite, row = 0, idx = 0, len = 2\<rparr>]
   \<and> gatherSpan (ofRows [[RGBAZero, \<lparr>R = 255, G = 0, B = 0, A = 255\<rparr>]])
        \<lparr>color = RGBAWhite, row = 0, idx = 0, len = 2\<rparr>
     = [RGBAZero, \<lparr>R = 255, G = 0, B = 0, A = 255\<rparr>]
   \<and> [At (sortSpans insertionSort (ofRows [[RGBAZero, \<lparr>R = 255, G = 0, B = 0, A = 255\<rparr>]])
           [\<lparr>color = RGBAWhite, row = 0, idx = 0, len = 2\<rparr>] False) 0 0,
       At (sortSpans insertionSort (ofRows [[RGBAZero, \<lparr>R = 255, G = 0, B = 0, A = 255\<rparr>]])
           [\<lparr>color = RGBAWhite, row = 0, idx = 0, len = 2\<rparr>] False) 1 0]
     = [RGBAMagenta, \<lparr>R = 255, G = 0, B = 0, A = 255\<rparr>]
   \<and> mset [RGBAMagenta, \<lparr>R = 255, G = 0, B = 0, A = 255\<rparr>]
       \<noteq> mset [RGBAZero, \<lparr>R = 255, G = 0, B = 0, A = 255\<rparr>]"
proof -
  let ?src = "ofRows [[RGBAZero, \<lparr>R = 255, G = 0, B = 0, A = 255\<rparr>]]"
  let ?sp = "\<lparr>color = RGBAWhite, row = 0, idx = 0, len = 2\<rparr>"
  have 1: "generateSortSpans (ofRows [[RGBAWhite, RGBAWhite]]) 2 = [?sp]" by code_simp
  have d: "Dx ?src = 2" "Dy ?src = 1" by (simp_all add: ofRows_def)
  have ok: "spansOk (Dx ?src) (Dy ?src) [?sp]" unfolding d by code_simp
  have g: "gatherSpan ?src ?sp = [RGBAZero, \<lparr>R = 255, G = 0, B = 0, A = 255\<rparr>]"
    by code_simp
  have s: "insertionSort (hueLess False) (gatherSpan ?src ?sp)
      = [RGBAZero, \<lparr>R = 255, G = 0, B = 0, A = 255\<rparr>]"
    unfolding g by (simp add: insertionSort_def hueLess_def example_hues)
  have a: "At (sortSpans insertionSort ?src [?sp] False) (0 + i) 0
      = written (insertionSort (hueLess False) (gatherSpan ?src ?sp) ! nat i)"
    if "0 \<le> i" "i < 2" for i
    using At_sortSpans_span[OF ok, of ?sp i insertionSort False] that by simp
  have 3: "[At (sortSpans insertionSort ?src [?sp] False) 0 0,
            At (sortSpans insertionSort ?src [?sp] False) 1 0]
      = [RGBAMagenta, \<lparr>R = 255, G = 0, B = 0, A = 255\<rparr>]"
    using a[of 0] a[of 1] unfolding s by (simp add: written_def RGBAZero_def)
  have 4: "mset [RGBAMagenta, \<lparr>R = 255, G = 0, B = 0, A = 255\<rparr>]
       \<noteq> mset [RGBAZero, \<lparr>R = 255, G = 0, B = 0, A = 255\<rparr>]"
    by (simp add: RGBAMagenta_def RGBAZero_def)
  from 1 g 3 4 show ?thesis by blast
qed

subsection \<open>The magenta sentinel\<close>

text \<open>
  Claim C8, as amended. Under the same assumptions, in a span longer than one pixel
  every position whose sorted pixel has alpha 0 holds magenta in the output.
\<close>

theorem sortSpans_magenta:
  assumes "sort_contract sort_Slice" "spansOk (Dx src) (Dy src) spans" "sp \<in> set spans"
      and "1 < len sp" "0 \<le> i" "i < len sp"
      and "A (sort_Slice (hueLess reverse) (gatherSpan src sp) ! nat i) = 0"
  shows "At (sortSpans sort_Slice src spans reverse) (idx sp + i) (row sp) = RGBAMagenta"
  using At_sortSpans_span[OF assms(2,3,4,5,6), of sort_Slice reverse] assms(7)
  by (simp add: written_def)

theorem sortSpans_magenta_witness:
  "At (sortSpans insertionSort (ofRows [[RGBAZero, \<lparr>R = 255, G = 0, B = 0, A = 255\<rparr>]])
           [\<lparr>color = RGBAWhite, row = 0, idx = 0, len = 2\<rparr>] False) 0 0 = RGBAMagenta"
proof -
  let ?src = "ofRows [[RGBAZero, \<lparr>R = 255, G = 0, B = 0, A = 255\<rparr>]]"
  let ?sp = "\<lparr>color = RGBAWhite, row = 0, idx = 0, len = 2\<rparr>"
  have d: "Dx ?src = 2" "Dy ?src = 1" by (simp_all add: ofRows_def)
  have ok: "spansOk (Dx ?src) (Dy ?src) [?sp]" unfolding d by code_simp
  have g: "gatherSpan ?src ?sp = [RGBAZero, \<lparr>R = 255, G = 0, B = 0, A = 255\<rparr>]"
    by code_simp
  have s: "insertionSort (hueLess False) (gatherSpan ?src ?sp)
      = [RGBAZero, \<lparr>R = 255, G = 0, B = 0, A = 255\<rparr>]"
    unfolding g by (simp add: insertionSort_def hueLess_def example_hues)
  have z: "A (insertionSort (hueLess False) (gatherSpan ?src ?sp) ! nat 0) = 0"
    unfolding s by (simp add: RGBAZero_def)
  have mem: "?sp \<in> set [?sp]" by simp
  have l: "1 < len ?sp" "(0::int) \<le> 0" "0 < len ?sp" by simp_all
  from sortSpans_magenta[OF insertionSort_contract ok mem l z]
  show ?thesis by simp
qed

text \<open>
  Counterexample to C8 as stated. A span of one pixel (the detector emits one when a
  line ends with a single white pixel) is skipped by \<open>sortSpans\<close>: its transparent source
  pixel stays in the output and is not replaced by magenta.
\<close>

theorem sortSpans_short_span_transparent:
  "generateSortSpans (ofRows [[RGBAWhite]]) 2 = [\<lparr>color = RGBAWhite, row = 0, idx = 0, len = 1\<rparr>]
   \<and> At (sortSpans insertionSort (ofRows [[RGBAZero]])
          [\<lparr>color = RGBAWhite, row = 0, idx = 0, len = 1\<rparr>] False) 0 0 = RGBAZero
   \<and> A RGBAZero = 0 \<and> RGBAZero \<noteq> RGBAMagenta"
proof -
  have 1: "generateSortSpans (ofRows [[RGBAWhite]]) 2 = [\<lparr>color = RGBAWhite, row = 0, idx = 0, len = 1\<rparr>]"
    by code_simp
  have 2: "At (sortSpans insertionSort (ofRows [[RGBAZero]])
          [\<lparr>color = RGBAWhite, row = 0, idx = 0, len = 1\<rparr>] False) 0 0 = RGBAZero"
  proof -
    have "At (sortSpans insertionSort (ofRows [[RGBAZero]])
          [\<lparr>color = RGBAWhite, row = 0, idx = 0, len = 1\<rparr>] False) 0 0
        = At (ofRows [[RGBAZero]]) 0 0"
      by (simp add: sortSpans_def sortSpan_def)
    also have "\<dots> = RGBAZero" by (simp add: At_def inBounds_def ofRows_def)
    finally show ?thesis .
  qed
  have 3: "A RGBAZero = 0 \<and> RGBAZero \<noteq> RGBAMagenta" by (simp add: RGBAZero_def RGBAMagenta_def)
  from 1 2 3 show ?thesis by blast
qed

subsection \<open>The pixels of the luminance mask\<close>

lemma maskPixel_eq:
  "maskPixel original lo hi invert y msk x =
     Set_px msk x y
       (if (real_of_int lo \<le> perceivedLuminance (At original x y)
            \<and> perceivedLuminance (At original x y) \<le> real_of_int hi) \<noteq> invert
        then RGBAWhite else RGBABlack)"
  by (auto simp: maskPixel_def Let_def)

lemma maskRow_prefix_dims:
  "Dx (foldl (maskPixel original lo hi invert y) msk xs) = Dx msk
   \<and> Dy (foldl (maskPixel original lo hi invert y) msk xs) = Dy msk"
  by (induction xs arbitrary: msk) (simp_all add: maskPixel_eq)


lemma maskRow_dims [simp]:
  "Dx (maskRow original lo hi invert msk y) = Dx msk"
  "Dy (maskRow original lo hi invert msk y) = Dy msk"
  by (simp_all add: maskRow_def maskRow_prefix_dims)






lemma le_sqrt_iff_sq: "0 \<le> y \<Longrightarrow> y \<le> sqrt x \<longleftrightarrow> y\<^sup>2 \<le> x"
  using real_sqrt_le_iff[of "y\<^sup>2" x] by simp



end
